theory Spec2Isabelle
  imports Main "HOL-Library.AList" "HOL-Library.Multiset"
begin

section \<open>File combiner: moving a source tree into one flat directory\<close>

text \<open>
  The program (\<^verbatim>\<open>main.py\<close>) walks a source directory, and moves every file it finds
  into one destination directory; a file whose name is already taken there is renamed
  to \<^verbatim>\<open>stem (i)suffix\<close> for the first free \<open>i\<close>. The moves are submitted to a
  thread pool in batches.

  The embedding keeps the source's functions: \<open>move_file\<close>, \<open>gather_files\<close>, \<open>main\<close>.
  What the source takes from the Python library (\<^verbatim>\<open>pathlib\<close>, \<^verbatim>\<open>os.walk\<close>,
  \<^verbatim>\<open>shutil.move\<close>, \<^verbatim>\<open>Path.mkdir\<close>) is modelled by its documented behaviour on a
  file system that is a finite tree of directories and files.
\<close>

subsection \<open>Paths and names\<close>

text \<open>
  A \<^verbatim>\<open>Path\<close> is the list of its components; \<^verbatim>\<open>p.name\<close> is the last one (the empty
  string when there is none) and \<^verbatim>\<open>p / n\<close> appends a component (joining the empty
  string gives \<open>p\<close> back). The components \<^verbatim>\<open>.\<close> and \<^verbatim>\<open>..\<close> and symbolic links are
  not modelled.
\<close>

type_synonym path = "string list"

definition name :: "path \<Rightarrow> string" where
  "name p = (if p = [] then [] else last p)"

definition joinpath :: "path \<Rightarrow> string \<Rightarrow> path" where
  "joinpath d n = (if n = [] then d else d @ [n])"

text \<open>
  \<^verbatim>\<open>str.rfind\<close>: the highest index at which the character occurs, or \<open>-1\<close>.
\<close>

fun rfind :: "char \<Rightarrow> string \<Rightarrow> int" where
  "rfind c [] = -1"
| "rfind c (x # xs) =
     (let r = rfind c xs in if 0 \<le> r then r + 1 else if x = c then 0 else -1)"

text \<open>
  \<^verbatim>\<open>Path.suffix\<close> and \<^verbatim>\<open>Path.stem\<close> of pathlib, on the name:
  \<^verbatim>\<open>
    i = name.rfind('.')
    if 0 < i < len(name) - 1: return name[i:]     # stem: name[:i]
    else:                     return ''           # stem: name
  \<close>
\<close>

definition suffix :: "string \<Rightarrow> string" where
  "suffix n = (let i = rfind CHR ''.'' n in
     if 0 < i \<and> i < int (length n) - 1 then drop (nat i) n else [])"

definition stem :: "string \<Rightarrow> string" where
  "stem n = (let i = rfind CHR ''.'' n in
     if 0 < i \<and> i < int (length n) - 1 then take (nat i) n else n)"

text \<open>
  The decimal numeral that the f-string \<^verbatim>\<open>f"{i}"\<close> prints for a counter \<open>i\<close>. The
  counter starts at 1 and only grows, and Python integers are unbounded, so it is a
  natural number.
\<close>

definition digit_char :: "nat \<Rightarrow> char" where
  "digit_char d = char_of (48 + d)"

fun str_nat :: "nat \<Rightarrow> string" where
  "str_nat n = (if n < 10 then [digit_char n] else str_nat (n div 10) @ [digit_char (n mod 10)])"

declare str_nat.simps [simp del]

text \<open>The candidate name \<^verbatim>\<open>f"{stem} ({i}){suffix}"\<close>.\<close>

definition candidate :: "string \<Rightarrow> string \<Rightarrow> nat \<Rightarrow> string" where
  "candidate st sf i = st @ '' ('' @ str_nat i @ '')'' @ sf"

text \<open>\<^verbatim>\<open>str(path)\<close>: the components joined by a slash.\<close>

fun str_path :: "path \<Rightarrow> string" where
  "str_path [] = ''.''"
| "str_path [c] = c"
| "str_path (c # cs) = c @ ''/'' @ str_path cs"

subsection \<open>The file system\<close>

text \<open>
  A directory holds its entries in directory-read order, as an association list from
  names to nodes; a file holds its content. The whole file system is the root node, and
  every path is looked up from it.
\<close>

datatype node = File string | Dir "(string \<times> node) list"

fun lookup :: "node \<Rightarrow> path \<Rightarrow> node option" where
  "lookup t [] = Some t"
| "lookup (File c) (x # xs) = None"
| "lookup (Dir es) (x # xs) = (case map_of es x of None \<Rightarrow> None | Some ch \<Rightarrow> lookup ch xs)"

text \<open>\<^verbatim>\<open>Path.exists()\<close> and \<^verbatim>\<open>os.path.isdir\<close>: files and directories both exist.\<close>

definition exists :: "node \<Rightarrow> path \<Rightarrow> bool" where
  "exists t p = (lookup t p \<noteq> None)"

fun is_dir_node :: "node \<Rightarrow> bool" where
  "is_dir_node (Dir es) = True"
| "is_dir_node (File c) = False"

definition isdir :: "node \<Rightarrow> path \<Rightarrow> bool" where
  "isdir t p = (case lookup t p of Some n \<Rightarrow> is_dir_node n | None \<Rightarrow> False)"

text \<open>
  Removing the entry at a path, and putting a node at a path (a new entry goes to the end
  of its directory, an existing one is replaced in place). \<open>put\<close> fails when the parent
  of the path is not an existing directory.
\<close>

fun remove :: "node \<Rightarrow> path \<Rightarrow> node" where
  "remove t [] = t"
| "remove (File c) (x # xs) = File c"
| "remove (Dir es) (x # xs) =
     (if xs = [] then Dir (AList.delete x es)
      else (case map_of es x of None \<Rightarrow> Dir es
            | Some ch \<Rightarrow> Dir (AList.update x (remove ch xs) es)))"

fun put :: "node \<Rightarrow> path \<Rightarrow> node \<Rightarrow> node option" where
  "put t [] n = None"
| "put (File c) (x # xs) n = None"
| "put (Dir es) (x # xs) n =
     (if xs = [] then Some (Dir (AList.update x n es))
      else (case map_of es x of None \<Rightarrow> None
            | Some ch \<Rightarrow> (case put ch xs n of None \<Rightarrow> None
                | Some ch' \<Rightarrow> Some (Dir (AList.update x ch' es)))))"

datatype error =
    FileNotFoundError
  | FileExistsError
  | NotADirectoryError
  | ShutilError
  | ValueError

text \<open>
  \<^verbatim>\<open>Path.mkdir(parents=True, exist_ok=True)\<close>: creates the directory and its missing
  ancestors; nothing changes when the directory is there already; it raises when the
  path is a file or runs through a file, and then nothing has been created.
\<close>

fun mkdir :: "node \<Rightarrow> path \<Rightarrow> error + node" where
  "mkdir (Dir es) [] = Inr (Dir es)"
| "mkdir (File c) [] = Inl FileExistsError"
| "mkdir (File c) (x # xs) = Inl NotADirectoryError"
| "mkdir (Dir es) (x # xs) =
     (case mkdir (case map_of es x of None \<Rightarrow> Dir [] | Some ch \<Rightarrow> ch) xs of
        Inl e \<Rightarrow> Inl e
      | Inr ch' \<Rightarrow> Inr (Dir (AList.update x ch' es)))"

text \<open>
  \<^verbatim>\<open>os.walk(top)\<close>, top-down: a directory yields its own triple \<^verbatim>\<open>(dirpath, dirnames,
  filenames)\<close> first, then the triples of its subdirectories in directory-read order. A
  top that is a file yields nothing.
\<close>

fun walk :: "path \<Rightarrow> node \<Rightarrow> (path \<times> string list \<times> string list) list"
  and walk_entries :: "path \<Rightarrow> (string \<times> node) list \<Rightarrow> (path \<times> string list \<times> string list) list"
  where
  "walk p (File c) = []"
| "walk p (Dir es) =
     (p, map fst (filter (\<lambda>e. is_dir_node (snd e)) es),
         map fst (filter (\<lambda>e. \<not> is_dir_node (snd e)) es)) # walk_entries p es"
| "walk_entries p [] = []"
| "walk_entries p (e # es) = walk (p @ [fst e]) (snd e) @ walk_entries p es"

definition os_walk :: "node \<Rightarrow> path \<Rightarrow> (path \<times> string list \<times> string list) list" where
  "os_walk t root = (case lookup t root of None \<Rightarrow> [] | Some n \<Rightarrow> walk root n)"

text \<open>
  A path runs through a file when one of its proper prefixes is a file.
\<close>

fun through_file :: "node \<Rightarrow> path \<Rightarrow> bool" where
  "through_file t [] = False"
| "through_file (File c) (x # xs) = True"
| "through_file (Dir es) (x # xs) =
     (case map_of es x of None \<Rightarrow> False | Some ch \<Rightarrow> through_file ch xs)"

text \<open>
  \<^verbatim>\<open>os.rename\<close> as \<^verbatim>\<open>shutil.move\<close> uses it (with its copy-and-delete fallback): the
  node leaves its source path and lands on the destination path, replacing a file that is
  there. It raises \<^verbatim>\<open>FileNotFoundError\<close> when the source does not exist or the
  destination's parent does not exist, \<^verbatim>\<open>NotADirectoryError\<close> when the destination runs
  through a file, and \<^verbatim>\<open>shutil.Error\<close> for a directory that would move into itself;
  then nothing has changed.
\<close>

definition os_rename :: "node \<Rightarrow> path \<Rightarrow> path \<Rightarrow> error + node" where
  "os_rename t src dst =
     (case lookup t src of None \<Rightarrow> Inl FileNotFoundError
      | Some n \<Rightarrow>
          if is_dir_node n \<and> length src < length dst \<and> take (length src) dst = src
          then Inl ShutilError
          else (case put (remove t src) dst n of
                  None \<Rightarrow>
                    Inl (if through_file t dst then NotADirectoryError else FileNotFoundError)
                | Some t' \<Rightarrow> Inr t'))"

text \<open>
  \<^verbatim>\<open>shutil.move(src, dst)\<close>: a destination that is an existing directory receives the
  source inside it, under the source's own name, unless that name is taken there; any
  other destination is renamed onto.
\<close>

definition shutil_move :: "node \<Rightarrow> path \<Rightarrow> path \<Rightarrow> error + node" where
  "shutil_move t src dst =
     (if isdir t dst then
        (let real_dst = joinpath dst (name src) in
         if exists t real_dst then Inl ShutilError else os_rename t src real_dst)
      else os_rename t src dst)"

subsection \<open>move_file\<close>

text \<open>
  The \<^verbatim>\<open>while True\<close> loop of \<open>move_file\<close>, entered with \<open>i = 1\<close>. It has no bound on
  \<open>i\<close>, so it is a partial function: \<open>None\<close> stands for a loop that never returns.
\<close>

partial_function (option) probe :: "node \<Rightarrow> path \<Rightarrow> string \<Rightarrow> string \<Rightarrow> nat \<Rightarrow> path option" where
  "probe t dest_dir st sf i =
     (let new_dest = joinpath dest_dir (candidate st sf i) in
      if \<not> exists t new_dest then Some new_dest
      else probe t dest_dir st sf (i + 1))"

declare probe.simps [code]

text \<open>
  The first part of \<open>move_file\<close>, up to the call of \<^verbatim>\<open>shutil.move\<close>: the destination
  path that the file will be moved to.
\<close>

definition resolve :: "node \<Rightarrow> path \<Rightarrow> path \<Rightarrow> path option" where
  "resolve t src dest_dir =
     (let dest = joinpath dest_dir (name src) in
      if exists t dest then probe t dest_dir (stem (name dest)) (suffix (name dest)) 1
      else Some dest)"

text \<open>
  \<open>move_file\<close> returns the destination path, or raises what \<^verbatim>\<open>shutil.move\<close> raises;
  the file system comes back with the result.
\<close>

definition move_file :: "node \<Rightarrow> path \<Rightarrow> path \<Rightarrow> ((error + path) \<times> node) option" where
  "move_file t src dest_dir =
     (case resolve t src dest_dir of None \<Rightarrow> None
      | Some dest \<Rightarrow>
          (case shutil_move t src dest of
             Inl e \<Rightarrow> Some (Inl e, t)
           | Inr t' \<Rightarrow> Some (Inr dest, t')))"

subsection \<open>gather_files\<close>

definition gather_files :: "node \<Rightarrow> path \<Rightarrow> path list" where
  "gather_files t root =
     concat (map (\<lambda>(dirpath, dirnames, filenames). map (\<lambda>f. joinpath dirpath f) filenames)
       (os_walk t root))"

subsection \<open>main\<close>

text \<open>
  The state of a run: the file system, the list \<^verbatim>\<open>futures\<close> of the source, the lines
  printed so far, and a trace of what the scheduler did with the pool. A future is the
  index of its file (the \<open>i\<close> of \<^verbatim>\<open>enumerate(all_files, 1)\<close>) with the outcome of its
  \<open>move_file\<close>. The trace records \<open>Submit i\<close> when the file is handed to the pool and
  \<open>Result i\<close> when \<^verbatim>\<open>fut.result()\<close> has returned or raised for it, which is when the
  scheduler knows that the move has ended.

  A submitted task is run to its end before the next one is submitted. This is the order
  of a pool with one worker, and one of the possible orders of a larger pool.
\<close>

datatype event = Submit nat | Result nat

type_synonym future = "nat \<times> (error + path)"

record run =
  fsys :: node
  futures :: "future list"
  out :: "string list"
  trace :: "event list"

text \<open>
  \<^verbatim>\<open>for fut in as_completed(futures): fut.result()\<close>, on the futures in the order in which
  \<^verbatim>\<open>as_completed\<close> yields them: the first failed future raises its error, and the
  futures after it are not looked at.
\<close>

fun drain :: "future list \<Rightarrow> event list \<times> error option" where
  "drain [] = ([], None)"
| "drain ((i, Inl e) # fs) = ([Result i], Some e)"
| "drain ((i, Inr p) # fs) = (case drain fs of (ev, r) \<Rightarrow> (Result i # ev, r))"

definition would_move :: "path \<Rightarrow> path \<Rightarrow> string" where
  "would_move f dest = ''Would move: '' @ str_path f @ '' -> '' @ str_path dest"

text \<open>
  What is known of \<^verbatim>\<open>as_completed\<close>: it yields each of the futures it is given, once,
  in an order of its own (the order in which they complete).
\<close>

definition yields_each :: "(future list \<Rightarrow> future list) \<Rightarrow> bool" where
  "yields_each as_completed = (\<forall>fs. mset (as_completed fs) = mset fs)"

text \<open>
  The \<^verbatim>\<open>for i, f in enumerate(all_files, 1)\<close> loop. The parameter \<open>as_completed\<close> is the
  order in which the library yields the futures of a batch. The result is the error that
  left the loop, if any, with the state at that point.
\<close>

fun submit_loop ::
  "(future list \<Rightarrow> future list) \<Rightarrow> path \<Rightarrow> int \<Rightarrow> bool \<Rightarrow> nat \<Rightarrow> path list \<Rightarrow> run
     \<Rightarrow> (error option \<times> run) option" where
  "submit_loop as_completed dest batch_size dry_run i [] st = Some (None, st)"
| "submit_loop as_completed dest batch_size dry_run i (f # fs) st =
     (if dry_run then
        submit_loop as_completed dest batch_size dry_run (i + 1) fs
          (st\<lparr>out := out st @ [would_move f dest]\<rparr>)
      else
        (case move_file (fsys st) f dest of None \<Rightarrow> None
         | Some (r, t') \<Rightarrow>
            (let st1 = st\<lparr>fsys := t', futures := futures st @ [(i, r)],
                           trace := trace st @ [Submit i]\<rparr> in
             if batch_size \<le> int (length (futures st1)) then
               (case drain (as_completed (futures st1)) of
                  (ev, Some e) \<Rightarrow> Some (Some e, st1\<lparr>trace := trace st1 @ ev\<rparr>)
                | (ev, None) \<Rightarrow>
                    submit_loop as_completed dest batch_size dry_run (i + 1) fs
                      (st1\<lparr>futures := [], trace := trace st1 @ ev\<rparr>))
             else submit_loop as_completed dest batch_size dry_run (i + 1) fs st1)))"

text \<open>
  The \<^verbatim>\<open>with ThreadPoolExecutor(max_workers=max_workers)\<close> block, the final batch and the
  last \<^verbatim>\<open>print\<close>. The constructor of the pool raises \<^verbatim>\<open>ValueError\<close> for a worker
  count that is not positive. An error that leaves the block ends \<open>main\<close>; leaving the
  block waits for every submitted task.
\<close>

definition run_pool ::
  "(future list \<Rightarrow> future list) \<Rightarrow> path \<Rightarrow> int \<Rightarrow> int \<Rightarrow> bool \<Rightarrow> path list \<Rightarrow> run
     \<Rightarrow> (error option \<times> run) option" where
  "run_pool as_completed dest max_workers batch_size dry_run all_files st0 =
     (if max_workers \<le> 0 then Some (Some ValueError, st0)
      else
        (case submit_loop as_completed dest batch_size dry_run 1 all_files st0 of
           None \<Rightarrow> None
         | Some (Some e, st) \<Rightarrow> Some (Some e, st)
         | Some (None, st) \<Rightarrow>
             (case drain (as_completed (futures st)) of
                (ev, Some e) \<Rightarrow> Some (Some e, st\<lparr>trace := trace st @ ev\<rparr>)
              | (ev, None) \<Rightarrow>
                  Some (None, st\<lparr>trace := trace st @ ev,
                                 out := out st @ [''Done moving files.'']\<rparr>))))"

definition main ::
  "(future list \<Rightarrow> future list) \<Rightarrow> node \<Rightarrow> path \<Rightarrow> path \<Rightarrow> int \<Rightarrow> int \<Rightarrow> bool
     \<Rightarrow> (error option \<times> run) option" where
  "main as_completed t source dest max_workers batch_size dry_run =
     (if \<not> exists t source then
        Some (None, \<lparr>fsys = t, futures = [],
                      out = [''Source path does not exist: '' @ str_path source], trace = []\<rparr>)
      else
        (case mkdir t dest of
           Inl e \<Rightarrow> Some (Some e, \<lparr>fsys = t, futures = [], out = [], trace = []\<rparr>)
         | Inr t1 \<Rightarrow>
            (let all_files = gather_files t1 source in
             run_pool as_completed dest max_workers batch_size dry_run all_files
               \<lparr>fsys = t1, futures = [],
                out = [''Found '' @ str_nat (length all_files) @ '' files to move.''],
                trace = []\<rparr>)))"

subsection \<open>Auxiliary definitions for the proofs\<close>

text \<open>Reading a decimal numeral back, to show that \<open>str_nat\<close> is injective.\<close>

definition digit_val :: "char \<Rightarrow> nat" where
  "digit_val c = of_char c - 48"

definition decode :: "string \<Rightarrow> nat" where
  "decode s = foldl (\<lambda>a c. 10 * a + digit_val c) 0 s"

text \<open>
  Example file systems. In \<open>example_tree\<close> the destination \<^verbatim>\<open>out\<close> holds a file
  \<^verbatim>\<open>a.txt\<close> and a directory \<^verbatim>\<open>a (1).txt\<close>; \<open>dotfile_tree\<close> has a \<^verbatim>\<open>.gitignore\<close> on
  both sides; \<open>scenario_tree\<close> is the scenario of the specification, with no
  destination yet; in \<open>collision_tree\<close> the destination holds a directory \<^verbatim>\<open>data\<close>
  and the source a file \<^verbatim>\<open>data\<close>.
\<close>

definition example_tree :: node where
  "example_tree =
     Dir [(''src'', Dir [(''a.txt'', File ''A''), (''sub'', Dir [(''a.txt'', File ''B'')]),
                         (''b.txt'', File ''C'')]),
          (''out'', Dir [(''a.txt'', File ''X''), (''a (1).txt'', Dir [])])]"

definition dotfile_tree :: node where
  "dotfile_tree =
     Dir [(''src'', Dir [(''.gitignore'', File ''A'')]),
          (''out'', Dir [(''.gitignore'', File ''X'')])]"

definition scenario_tree :: node where
  "scenario_tree =
     Dir [(''src'', Dir [(''a.txt'', File ''A''), (''b.txt'', File ''C''),
                         (''sub'', Dir [(''a.txt'', File ''B'')])])]"

definition collision_tree :: node where
  "collision_tree =
     Dir [(''src'', Dir [(''data'', File ''D'')]),
          (''out'', Dir [(''data'', Dir [(''x'', File ''X'')])])]"

subsection \<open>Reading a trace\<close>

text \<open>
  The files in flight after a trace: submitted, and \<^verbatim>\<open>fut.result()\<close> has not yet returned
  or raised for them. (A move may have ended before the scheduler looks at its future,
  so the moves that are really running are among these.)
\<close>

fun flight :: "nat list \<Rightarrow> event list \<Rightarrow> nat list" where
  "flight fl [] = fl"
| "flight fl (Submit k # tr) = flight (fl @ [k]) tr"
| "flight fl (Result k # tr) = flight (removeAll k fl) tr"

text \<open>
  With batches of \<open>cap\<close> files, the \<open>i\<close>-th file (counted from 1) is in batch
  \<open>(i - 1) div cap\<close>.
\<close>

definition batch_of :: "nat \<Rightarrow> nat \<Rightarrow> nat" where
  "batch_of cap i = (i - 1) div cap"

text \<open>
  A trace is \<open>scheduled\<close> for \<open>cap\<close> when every submission leaves at most \<open>cap\<close> files in
  flight, and finds in flight only files of the batch of the file it submits: every file
  of an earlier batch has reached its end before.
\<close>

fun scheduled :: "nat \<Rightarrow> nat list \<Rightarrow> event list \<Rightarrow> bool" where
  "scheduled cap fl [] = True"
| "scheduled cap fl (Submit k # tr) =
     (length (fl @ [k]) \<le> cap \<and> (\<forall>j\<in>set fl. batch_of cap j = batch_of cap k)
      \<and> scheduled cap (fl @ [k]) tr)"
| "scheduled cap fl (Result k # tr) = scheduled cap (removeAll k fl) tr"

subsection \<open>The moves of a run\<close>





subsection \<open>Where a failing run stops\<close>




subsection \<open>Two workers\<close>

text \<open>
  With more than one worker, two calls of \<open>move_file\<close> run at the same time, and nothing
  in the source holds the destination directory between the test \<^verbatim>\<open>dest.exists()\<close> and
  the call of \<^verbatim>\<open>shutil.move\<close>. \<open>two_workers_race\<close> is one of the orders in which the
  steps of two calls can follow each other: both calls choose their destination path (the
  first part of \<open>move_file\<close>), then the first call moves its file, then the second.
\<close>

definition two_workers_race ::
  "node \<Rightarrow> path \<Rightarrow> path \<Rightarrow> path \<Rightarrow> ((error + path) \<times> (error + path) \<times> node) option" where
  "two_workers_race t src1 src2 dest_dir =
     (case resolve t src1 dest_dir of None \<Rightarrow> None
      | Some dest1 \<Rightarrow>
         (case resolve t src2 dest_dir of None \<Rightarrow> None
          | Some dest2 \<Rightarrow>
             (case shutil_move t src1 dest1 of
                Inl e1 \<Rightarrow>
                  (case shutil_move t src2 dest2 of
                     Inl e2 \<Rightarrow> Some (Inl e1, Inl e2, t)
                   | Inr t2 \<Rightarrow> Some (Inl e1, Inr dest2, t2))
              | Inr t1 \<Rightarrow>
                  (case shutil_move t1 src2 dest2 of
                     Inl e2 \<Rightarrow> Some (Inr dest1, Inl e2, t1)
                   | Inr t2 \<Rightarrow> Some (Inr dest1, Inr dest2, t2)))))"

text \<open>Two files of the same name in different directories, and an empty destination.\<close>

definition same_name_tree :: node where
  "same_name_tree =
     Dir [(''src'', Dir [(''a.txt'', File ''A''), (''sub'', Dir [(''a.txt'', File ''B'')])]),
          (''out'', Dir [])]"

section \<open>Properties\<close>

subsection \<open>Names, candidates and the probe loop\<close>

lemma joinpath_candidate: "joinpath d (candidate st sf i) = d @ [candidate st sf i]"
  by (simp add: joinpath_def candidate_def)

lemma lookup_snoc:
  "lookup t (d @ [n]) =
     (case lookup t d of Some (Dir es) \<Rightarrow> map_of es n | Some (File c) \<Rightarrow> None | None \<Rightarrow> None)"
proof (induction t d rule: lookup.induct)
  case (1 t)
  then show ?case by (cases t) (simp_all split: option.splits)
next
  case (2 c x xs)
  then show ?case by simp
next
  case (3 es x xs)
  then show ?case by (simp split: option.splits)
qed

lemma finite_entries: "finite {n. exists t (d @ [n])}"
proof (cases "lookup t d")
  case None
  then show ?thesis by (simp add: exists_def lookup_snoc)
next
  case (Some nd)
  show ?thesis
  proof (cases nd)
    case (File c)
    with Some show ?thesis by (simp add: exists_def lookup_snoc)
  next
    case (Dir es)
    with Some have "{n. exists t (d @ [n])} \<subseteq> fst ` set es"
      by (auto simp: exists_def lookup_snoc dest!: map_of_SomeD intro: rev_image_eqI)
    then show ?thesis by (rule finite_subset) simp
  qed
qed

lemma digit_val_digit_char: "d < 10 \<Longrightarrow> digit_val (digit_char d) = d"
  by (simp add: digit_val_def digit_char_def)

lemma decode_str_nat: "decode (str_nat n) = n"
proof (induction n rule: str_nat.induct)
  case (1 n)
  show ?case
  proof (cases "n < 10")
    case True
    then show ?thesis
      by (subst str_nat.simps) (simp add: decode_def digit_val_digit_char)
  next
    case False
    with 1 have "decode (str_nat (n div 10)) = n div 10" by simp
    with False show ?thesis
      by (subst str_nat.simps) (simp add: decode_def digit_val_digit_char)
  qed
qed

lemma str_nat_inj: "str_nat i = str_nat j \<Longrightarrow> i = j"
  by (metis decode_str_nat)

lemma candidate_inj: "candidate st sf i = candidate st sf j \<Longrightarrow> i = j"
  by (simp add: candidate_def str_nat_inj)

lemma free_candidate: "\<exists>i\<ge>1. \<not> exists t (joinpath d (candidate st sf i))"
proof (rule ccontr)
  assume "\<not> ?thesis"
  then have all: "\<And>i. 1 \<le> i \<Longrightarrow> exists t (d @ [candidate st sf i])"
    by (auto simp: joinpath_candidate)
  then have "candidate st sf ` {1..} \<subseteq> {n. exists t (d @ [n])}" by auto
  then have "finite (candidate st sf ` {1..})"
    by (rule finite_subset) (rule finite_entries)
  moreover have "inj_on (candidate st sf) {1..}"
    by (auto intro: inj_onI dest: candidate_inj)
  ultimately have "finite {1::nat..}" by (rule finite_imageD)
  then show False by (simp add: infinite_Ici)
qed

lemma probe_first:
  assumes "i \<le> j"
    and "\<not> exists t (joinpath d (candidate st sf j))"
    and "\<And>k. i \<le> k \<Longrightarrow> k < j \<Longrightarrow> exists t (joinpath d (candidate st sf k))"
  shows "probe t d st sf i = Some (joinpath d (candidate st sf j))"
  using assms
proof (induction "j - i" arbitrary: i)
  case 0
  then have "i = j" by simp
  with 0 show ?case by (subst probe.simps) simp
next
  case (Suc m)
  then have lt: "i < j" by simp
  with Suc.prems have ex: "exists t (joinpath d (candidate st sf i))" by simp
  have "probe t d st sf (i + 1) = Some (joinpath d (candidate st sf j))"
    using Suc.hyps Suc.prems lt by (intro Suc.hyps(1)) auto
  with ex show ?case by (subst probe.simps) simp
qed

lemma probe_total:
  "\<exists>j\<ge>1. probe t d st sf 1 = Some (joinpath d (candidate st sf j))
     \<and> \<not> exists t (joinpath d (candidate st sf j))
     \<and> (\<forall>k. 1 \<le> k \<and> k < j \<longrightarrow> exists t (joinpath d (candidate st sf k)))"
proof -
  let ?P = "\<lambda>i. 1 \<le> i \<and> \<not> exists t (joinpath d (candidate st sf i))"
  from free_candidate [of t d st sf] have ex: "\<exists>i. ?P i" by blast
  define j where "j = (LEAST i. ?P i)"
  have Pj: "?P j" unfolding j_def using ex by (rule LeastI_ex)
  have least: "\<And>k. 1 \<le> k \<Longrightarrow> k < j \<Longrightarrow> exists t (joinpath d (candidate st sf k))"
  proof -
    fix k assume "1 \<le> k" "k < j"
    then have "\<not> ?P k" unfolding j_def using not_less_Least by blast
    with \<open>1 \<le> k\<close> show "exists t (joinpath d (candidate st sf k))" by simp
  qed
  from Pj least have "probe t d st sf 1 = Some (joinpath d (candidate st sf j))"
    by (intro probe_first) auto
  with Pj least show ?thesis by blast
qed

lemma rfind_absent: "c \<notin> set s \<Longrightarrow> rfind c s = -1"
  by (induction s) auto

lemma rfind_ge: "- 1 \<le> rfind c s"
  by (induction s) (simp_all add: Let_def)

lemma rfind_last: "0 \<le> rfind c s \<Longrightarrow> c \<notin> set (drop (Suc (nat (rfind c s))) s)"
proof (induction s)
  case Nil
  then show ?case by simp
next
  case (Cons x xs)
  show ?case
  proof (cases "0 \<le> rfind c xs")
    case True
    then have "nat (rfind c xs + 1) = Suc (nat (rfind c xs))" by simp
    with True Cons.IH show ?thesis by (simp add: Let_def)
  next
    case False
    with rfind_ge [of c xs] have "rfind c xs = -1" by simp
    moreover from False Cons.prems have "x = c" by (simp add: Let_def split: if_splits)
    moreover have "c \<notin> set xs"
    proof
      assume "c \<in> set xs"
      then have "0 \<le> rfind c xs"
        by (induction xs) (auto simp: Let_def)
      with False show False by simp
    qed
    ultimately show ?thesis by (simp add: Let_def)
  qed
qed

lemma rfind_hit: "0 \<le> rfind c s \<Longrightarrow> s ! nat (rfind c s) = c"
proof (induction s)
  case Nil
  then show ?case by simp
next
  case (Cons x xs)
  show ?case
  proof (cases "0 \<le> rfind c xs")
    case True
    then have "nat (rfind c xs + 1) = Suc (nat (rfind c xs))" by simp
    with True Cons.IH show ?thesis by (simp add: Let_def)
  next
    case False
    with Cons.prems show ?thesis by (simp add: Let_def split: if_splits)
  qed
qed

lemma stem_suffix: "stem n @ suffix n = n"
  by (simp add: stem_def suffix_def Let_def)

lemma suffix_shape:
  "suffix n = [] \<or> (\<exists>ext. suffix n = CHR ''.'' # ext \<and> ext \<noteq> [] \<and> CHR ''.'' \<notin> set ext)"
proof (cases "0 < rfind CHR ''.'' n \<and> rfind CHR ''.'' n < int (length n) - 1")
  case False
  then show ?thesis by (auto simp: suffix_def Let_def)
next
  case True
  let ?i = "nat (rfind CHR ''.'' n)"
  from True have i: "?i < length n" "Suc ?i < length n" "0 \<le> rfind CHR ''.'' n" by auto
  have sf: "suffix n = drop ?i n" using True by (simp add: suffix_def Let_def)
  have "drop ?i n = n ! ?i # drop (Suc ?i) n" using i(1) by (simp add: Cons_nth_drop_Suc)
  moreover have "n ! ?i = CHR ''.''" using i(3) by (rule rfind_hit)
  moreover have "CHR ''.'' \<notin> set (drop (Suc ?i) n)" using i(3) by (rule rfind_last)
  moreover have "drop (Suc ?i) n \<noteq> []" using i(2) by simp
  ultimately show ?thesis using sf by simp
qed

lemma name_joinpath: "n \<noteq> [] \<Longrightarrow> name (joinpath d n) = n"
  by (simp add: name_def joinpath_def)

lemma resolve_free:
  "\<not> exists t (joinpath dest_dir (name src)) \<Longrightarrow>
     resolve t src dest_dir = Some (joinpath dest_dir (name src))"
  by (simp add: resolve_def Let_def)

lemma resolve_taken:
  assumes "exists t (joinpath dest_dir (name src))" and "name src \<noteq> []"
  shows "\<exists>i\<ge>1. resolve t src dest_dir
            = Some (joinpath dest_dir (candidate (stem (name src)) (suffix (name src)) i))
         \<and> \<not> exists t (joinpath dest_dir (candidate (stem (name src)) (suffix (name src)) i))
         \<and> (\<forall>k. 1 \<le> k \<and> k < i \<longrightarrow>
              exists t (joinpath dest_dir (candidate (stem (name src)) (suffix (name src)) k)))"
proof -
  from assms have "resolve t src dest_dir
      = probe t dest_dir (stem (name src)) (suffix (name src)) 1"
    by (simp add: resolve_def Let_def name_joinpath)
  with probe_total [of t dest_dir "stem (name src)" "suffix (name src)"]
  show ?thesis by auto
qed

lemma move_file_result:
  "resolve t src dest_dir = Some p \<Longrightarrow> move_file t src dest_dir = Some (Inr r, t') \<Longrightarrow> r = p"
  by (auto simp: move_file_def split: sum.splits)

subsection \<open>Looking up after a removal and after a put\<close>

lemma lookup_append:
  "lookup t (p @ q) = (case lookup t p of None \<Rightarrow> None | Some n \<Rightarrow> lookup n q)"
  by (induction t p rule: lookup.induct) (simp_all split: option.splits)

lemma lookup_put_same: "put t p n = Some t' \<Longrightarrow> lookup t' p = Some n"
proof (induction t p n arbitrary: t' rule: put.induct)
  case (3 es x xs n)
  then show ?case
    by (auto simp: update_conv' split: if_splits option.splits)
qed simp_all

lemma put_snoc_ok: "isdir t d \<Longrightarrow> \<exists>t'. put t (d @ [x]) n = Some t'"
proof (induction t d rule: lookup.induct)
  case (1 t)
  then show ?case by (cases t) (simp_all add: isdir_def)
next
  case (2 c y ys)
  then show ?case by (simp add: isdir_def)
next
  case (3 es y ys)
  then show ?case
    by (auto simp: isdir_def split: option.splits)
qed

lemma lookup_put_sibling:
  "put t (d @ [x]) n = Some t' \<Longrightarrow> y \<noteq> x \<Longrightarrow> lookup t' (d @ y # ys) = lookup t (d @ y # ys)"
proof (induction d arbitrary: t t')
  case Nil
  then obtain es where t: "t = Dir es" by (cases t) auto
  with Nil have "t' = Dir (AList.update x n es)" by simp
  with t Nil.prems(2) show ?case by (simp add: update_conv')
next
  case (Cons a d)
  then obtain es where t: "t = Dir es" by (cases t) auto
  with Cons.prems(1) obtain ch ch' where ch: "map_of es a = Some ch"
    "put ch (d @ [x]) n = Some ch'" "t' = Dir (AList.update a ch' es)"
    by (auto split: option.splits)
  from Cons.IH [OF ch(2) Cons.prems(2)]
  have "lookup ch' (d @ y # ys) = lookup ch (d @ y # ys)" .
  with t ch show ?case by (simp add: update_conv')
qed

lemma lookup_remove_None: "lookup t q = None \<Longrightarrow> lookup (remove t s) q = None"
proof (induction t s arbitrary: q rule: remove.induct)
  case (1 t)
  then show ?case by simp
next
  case (2 c x xs)
  then show ?case by simp
next
  case (3 es x xs)
  then show ?case
    by (cases q) (auto simp: update_conv' delete_conv' split: option.splits if_splits)
qed

lemma isdir_Nil: "isdir t [] = is_dir_node t"
  by (simp add: isdir_def)

lemma isdir_Cons:
  "isdir (Dir es) (y # ys) = (case map_of es y of None \<Rightarrow> False | Some ch \<Rightarrow> isdir ch ys)"
  by (simp add: isdir_def split: option.splits)

lemma isdir_remove: "isdir t q \<Longrightarrow> take (length s) q \<noteq> s \<Longrightarrow> isdir (remove t s) q"
proof (induction t s arbitrary: q rule: remove.induct)
  case (1 t)
  then show ?case by simp
next
  case (2 c x xs)
  then show ?case by simp
next
  case (3 es x xs)
  show ?case
  proof (cases q)
    case Nil
    then show ?thesis
      by (simp add: isdir_Nil split: option.splits)
  next
    case (Cons y ys)
    with "3.prems" obtain ch where ch: "map_of es y = Some ch" "isdir ch ys"
      by (auto simp: isdir_Cons split: option.splits)
    show ?thesis
    proof (cases "xs = []")
      case True
      with "3.prems" Cons have "y \<noteq> x" by auto
      with True Cons ch show ?thesis by (simp add: isdir_Cons)
    next
      case False
      show ?thesis
      proof (cases "y = x")
        case True
        with "3.prems" Cons have "take (length xs) ys \<noteq> xs" by simp
        with "3.IH" [OF False] ch True have "isdir (remove ch xs) ys" by simp
        with False Cons ch True show ?thesis
          by (simp add: isdir_Cons update_conv')
      next
        case ne: False
        with False Cons ch show ?thesis
          by (simp add: isdir_Cons update_conv' split: option.splits)
      qed
    qed
  qed
qed

lemma file_not_prefix_of_dir:
  assumes "lookup t s = Some (File c)" and "isdir t q"
  shows "take (length s) q \<noteq> s"
proof
  assume "take (length s) q = s"
  then have "q = s @ drop (length s) q" by (metis append_take_drop_id)
  then obtain r where "q = s @ r" ..
  with assms show False
    by (cases r) (simp_all add: isdir_def lookup_append)
qed

lemma isdir_parent: "exists t (d @ [n]) \<Longrightarrow> isdir t d"
  by (auto simp: exists_def isdir_def lookup_snoc split: option.splits node.splits)

lemma not_isdir_absent: "\<not> exists t p \<Longrightarrow> \<not> isdir t p"
  by (simp add: exists_def isdir_def)

subsection \<open>Creating the destination, and a dry run of the loop\<close>

lemma submit_loop_dry:
  "submit_loop ac dest b True i fs st
     = Some (None, st\<lparr>out := out st @ map (\<lambda>f. would_move f dest) fs\<rparr>)"
  by (induction fs arbitrary: i st) simp_all

lemma mkdir_isdir: "isdir t p \<Longrightarrow> mkdir t p = Inr t"
proof (induction t p rule: mkdir.induct)
  case (1 es)
  then show ?case by simp
next
  case (2 c)
  then show ?case by (simp add: isdir_def)
next
  case (3 c x xs)
  then show ?case by (simp add: isdir_def)
next
  case (4 es x xs)
  from "4.prems" obtain ch where ch: "map_of es x = Some ch" "isdir ch xs"
    by (auto simp: isdir_Cons split: option.splits)
  with "4.IH" have "mkdir ch xs = Inr ch" by simp
  with ch show ?case by (simp add: update_triv)
qed

lemma mkdir_files:
  "mkdir t d = Inr t' \<Longrightarrow> (lookup t' p = Some (File c)) = (lookup t p = Some (File c))"
proof (induction t d arbitrary: t' p rule: mkdir.induct)
  case (1 es)
  then show ?case by simp
next
  case (2 c)
  then show ?case by simp
next
  case (3 c x xs)
  then show ?case by simp
next
  case (4 es x xs)
  let ?ch = "case map_of es x of None \<Rightarrow> Dir [] | Some ch \<Rightarrow> ch"
  from "4.prems" obtain ch' where ch': "mkdir ?ch xs = Inr ch'"
    "t' = Dir (AList.update x ch' es)"
    by (auto split: sum.splits)
  show ?case
  proof (cases p)
    case Nil
    with ch' show ?thesis by simp
  next
    case (Cons y ys)
    show ?thesis
    proof (cases "y = x")
      case False
      with Cons ch' show ?thesis by (simp add: update_conv')
    next
      case True
      from "4.IH" [OF ch'(1)]
      have ih: "(lookup ch' ys = Some (File c)) = (lookup ?ch ys = Some (File c))" .
      have "(lookup ?ch ys = Some (File c)) = (lookup (Dir es) (x # ys) = Some (File c))"
        by (cases ys) (simp_all split: option.splits)
      with ih True Cons ch' show ?thesis by (simp add: update_conv')
    qed
  qed
qed

lemma mkdir_exists: "mkdir t d = Inr t' \<Longrightarrow> exists t p \<Longrightarrow> exists t' p"
proof (induction t d arbitrary: t' p rule: mkdir.induct)
  case (1 es)
  then show ?case by simp
next
  case (2 c)
  then show ?case by simp
next
  case (3 c x xs)
  then show ?case by simp
next
  case (4 es x xs)
  let ?ch = "case map_of es x of None \<Rightarrow> Dir [] | Some ch \<Rightarrow> ch"
  from "4.prems" obtain ch' where ch': "mkdir ?ch xs = Inr ch'"
    "t' = Dir (AList.update x ch' es)"
    by (auto split: sum.splits)
  show ?case
  proof (cases p)
    case Nil
    then show ?thesis by (simp add: exists_def)
  next
    case (Cons y ys)
    show ?thesis
    proof (cases "y = x")
      case False
      with Cons ch' "4.prems"(2) show ?thesis by (simp add: exists_def update_conv')
    next
      case True
      with Cons "4.prems"(2) obtain ch where ch: "map_of es x = Some ch" "exists ch ys"
        by (auto simp: exists_def split: option.splits)
      with "4.IH" [OF ch'(1), of ys] have "exists ch' ys" by simp
      with True Cons ch' show ?thesis by (simp add: exists_def update_conv')
    qed
  qed
qed

lemma yields_each_Nil: "yields_each ac \<Longrightarrow> ac [] = []"
proof -
  assume "yields_each ac"
  then have "mset (ac []) = mset []" unfolding yields_each_def by blast
  then show ?thesis by simp
qed

lemma yields_each_id: "yields_each id"
  by (simp add: yields_each_def)

subsection \<open>The trace of the submission loop\<close>

lemma move_file_total: "\<exists>r t'. move_file t src dest_dir = Some (r, t')"
proof (cases "exists t (joinpath dest_dir (name src))")
  case False
  then show ?thesis
    by (simp add: move_file_def resolve_free split: sum.splits)
next
  case True
  from probe_total [of t dest_dir "stem (name (joinpath dest_dir (name src)))"
      "suffix (name (joinpath dest_dir (name src)))"]
  obtain p where "resolve t src dest_dir = Some p"
    using True by (auto simp: resolve_def Let_def)
  then show ?thesis by (simp add: move_file_def split: sum.splits)
qed

lemma scheduled_append:
  "scheduled cap fl (tr1 @ tr2) = (scheduled cap fl tr1 \<and> scheduled cap (flight fl tr1) tr2)"
proof (induction tr1 arbitrary: fl)
  case Nil
  then show ?case by simp
next
  case (Cons ev tr1)
  then show ?case by (cases ev) auto
qed

lemma flight_append: "flight fl (tr1 @ tr2) = flight (flight fl tr1) tr2"
proof (induction tr1 arbitrary: fl)
  case Nil
  then show ?case by simp
next
  case (Cons ev tr1)
  then show ?case by (cases ev) simp_all
qed

lemma scheduled_Results: "scheduled cap fl (map Result ks)"
  by (induction ks arbitrary: fl) simp_all

lemma flight_Results: "flight fl (map Result ks) = filter (\<lambda>j. j \<notin> set ks) fl"
proof (induction ks arbitrary: fl)
  case Nil
  then show ?case by simp
next
  case (Cons k ks)
  have "filter (\<lambda>j. j \<notin> set ks) (removeAll k fl) = filter (\<lambda>j. j \<notin> set (k # ks)) fl"
    by (induction fl) auto
  with Cons show ?case by simp
qed

lemma drain_events: "\<exists>ks. fst (drain xs) = map Result ks \<and> set ks \<subseteq> fst ` set xs"
proof (induction xs rule: drain.induct)
  case 1
  then show ?case by simp
next
  case (2 i e fs)
  have "fst (drain ((i, Inl e) # fs)) = map Result [i]" by simp
  then show ?case by (intro exI [of _ "[i]"]) simp
next
  case (3 i p fs)
  then obtain ks where ks: "fst (drain fs) = map Result ks" "set ks \<subseteq> fst ` set fs" by blast
  then have "fst (drain ((i, Inr p) # fs)) = map Result (i # ks)"
    by (cases "drain fs") simp
  with ks(2) show ?case by (intro exI [of _ "i # ks"]) auto
qed

lemma drain_all: "snd (drain xs) = None \<Longrightarrow> fst (drain xs) = map Result (map fst xs)"
proof (induction xs rule: drain.induct)
  case (3 i p fs)
  then show ?case by (cases "drain fs") simp
qed simp_all

lemma next_index_full: "(k mod cap) = m \<Longrightarrow> Suc m = cap \<Longrightarrow> Suc k mod cap = 0"
  by (auto simp: mod_Suc)

lemma next_index_room:
  "(k mod cap) = m \<Longrightarrow> Suc m < cap \<Longrightarrow> Suc k mod cap = Suc m \<and> Suc k div cap = k div cap"
  by (auto simp: mod_Suc div_Suc)

lemma yields_each_set: "yields_each ac \<Longrightarrow> set (ac xs) = set xs"
  unfolding yields_each_def by (metis set_mset_mset)

lemma submit_loop_scheduled:
  assumes ac: "yields_each ac" and cap: "cap = nat (max 1 b)"
  shows "scheduled cap [] (trace st) \<Longrightarrow> flight [] (trace st) = map fst (futures st)
    \<Longrightarrow> length (futures st) < cap \<Longrightarrow> k mod cap = length (futures st)
    \<Longrightarrow> (\<forall>j\<in>set (map fst (futures st)). batch_of cap j = batch_of cap (Suc k))
    \<Longrightarrow> \<exists>e st'. submit_loop ac dest b False (Suc k) fs st = Some (e, st')
          \<and> scheduled cap [] (trace st')
          \<and> (e = None \<longrightarrow> flight [] (trace st') = map fst (futures st'))"
proof (induction fs arbitrary: k st)
  case Nil
  then show ?case by simp
next
  case (Cons f fs)
  let ?m = "length (futures st)"
  let ?fl = "map fst (futures st)"
  obtain r t' where mv: "move_file (fsys st) f dest = Some (r, t')"
    using move_file_total by blast
  define st1 where "st1 = st\<lparr>fsys := t', futures := futures st @ [(Suc k, r)],
      trace := trace st @ [Submit (Suc k)]\<rparr>"
  have f1: "futures st1 = futures st @ [(Suc k, r)]" and tr1: "trace st1 = trace st @ [Submit (Suc k)]"
    by (simp_all add: st1_def)
  have sch1: "scheduled cap [] (trace st1)"
    using Cons.prems by (simp add: tr1 scheduled_append)
  have fl1: "flight [] (trace st1) = map fst (futures st1)"
    using Cons.prems by (simp add: tr1 f1 flight_append)
  have cond: "(b \<le> 1 + int ?m) = (cap \<le> Suc ?m)"
    using cap by (auto simp: max_def)
  have step: "submit_loop ac dest b False (Suc k) (f # fs) st =
      (if cap \<le> Suc ?m then
         (case drain (ac (futures st1)) of
            (ev, Some e) \<Rightarrow> Some (Some e, st1\<lparr>trace := trace st1 @ ev\<rparr>)
          | (ev, None) \<Rightarrow>
              submit_loop ac dest b False (Suc (Suc k)) fs
                (st1\<lparr>futures := [], trace := trace st1 @ ev\<rparr>))
       else submit_loop ac dest b False (Suc (Suc k)) fs st1)"
    using cond by (simp add: mv st1_def [symmetric] Let_def)
  show ?case
  proof (cases "cap \<le> Suc ?m")
    case False
    then have room: "Suc ?m < cap" by simp
    from next_index_room [OF Cons.prems(4) room]
    have nx: "Suc k mod cap = Suc ?m" "Suc k div cap = k div cap" by simp_all
    have b: "\<forall>j\<in>set (map fst (futures st1)). batch_of cap j = batch_of cap (Suc (Suc k))"
      using Cons.prems(5) nx(2) by (auto simp: f1 batch_of_def)
    have "\<exists>e st'. submit_loop ac dest b False (Suc (Suc k)) fs st1 = Some (e, st')
          \<and> scheduled cap [] (trace st')
          \<and> (e = None \<longrightarrow> flight [] (trace st') = map fst (futures st'))"
      using sch1 fl1 room nx(1) b by (intro Cons.IH) (simp_all add: f1)
    with False step show ?thesis by simp
  next
    case True
    with Cons.prems(3) have full: "Suc ?m = cap" by simp
    obtain ev res where dr: "drain (ac (futures st1)) = (ev, res)" by (cases "drain (ac (futures st1))")
    from drain_events [of "ac (futures st1)"] dr obtain ks where ks: "ev = map Result ks"
      by auto
    show ?thesis
    proof (cases res)
      case (Some e)
      have "scheduled cap [] (trace st1 @ ev)"
        using sch1 by (simp add: scheduled_append ks scheduled_Results)
      with True step dr Some show ?thesis by simp
    next
      case None
      let ?st2 = "st1\<lparr>futures := [], trace := trace st1 @ ev\<rparr>"
      define ks2 where "ks2 = map fst (ac (futures st1))"
      from drain_all [of "ac (futures st1)"] dr None
      have ev: "ev = map Result ks2" by (simp add: ks2_def)
      have sch2: "scheduled cap [] (trace ?st2)"
        using sch1 by (simp add: scheduled_append ev scheduled_Results)
      have "set ks2 = set (map fst (futures st1))"
        using yields_each_set [OF ac, of "futures st1"] by (simp add: ks2_def)
      then have "filter (\<lambda>j. j \<notin> set ks2) (map fst (futures st1)) = []"
        by (simp add: filter_empty_conv)
      then have fl2: "flight [] (trace ?st2) = map fst (futures ?st2)"
        using fl1 by (simp add: flight_append ev flight_Results)
      have cap0: "0 < cap" using full by simp
      have nx: "Suc k mod cap = 0" using Cons.prems(4) full by (rule next_index_full)
      have "\<exists>e st'. submit_loop ac dest b False (Suc (Suc k)) fs ?st2 = Some (e, st')
          \<and> scheduled cap [] (trace st')
          \<and> (e = None \<longrightarrow> flight [] (trace st') = map fst (futures st'))"
        using sch2 fl2 cap0 nx by (intro Cons.IH) simp_all
      with True step dr None show ?thesis by simp
    qed
  qed
qed

lemma scheduled_flight_bound:
  "scheduled cap fl tr \<Longrightarrow> length fl \<le> cap \<Longrightarrow> length (flight fl (take n tr)) \<le> cap"
proof (induction tr arbitrary: fl n)
  case Nil
  then show ?case by simp
next
  case (Cons ev tr)
  show ?case
  proof (cases n)
    case 0
    with Cons.prems show ?thesis by simp
  next
    case (Suc n')
    show ?thesis
    proof (cases ev)
      case (Submit k)
      with Cons.prems have "scheduled cap (fl @ [k]) tr" "length (fl @ [k]) \<le> cap" by simp_all
      then have "length (flight (fl @ [k]) (take n' tr)) \<le> cap" by (rule Cons.IH)
      with Suc Submit show ?thesis by simp
    next
      case (Result k)
      have "length (removeAll k fl) \<le> length fl" by (rule length_removeAll_less_eq)
      with Cons.prems(2) have "length (removeAll k fl) \<le> cap" by linarith
      moreover from Cons.prems(1) Result have "scheduled cap (removeAll k fl) tr" by simp
      ultimately have "scheduled cap (removeAll k fl) tr"
        "length (removeAll k fl) \<le> cap" by simp_all
      then have "length (flight (removeAll k fl) (take n' tr)) \<le> cap" by (rule Cons.IH)
      with Suc Result show ?thesis by simp
    qed
  qed
qed

lemma run_pool_scheduled:
  assumes ac: "yields_each ac" and f0: "futures st0 = []" and t0: "trace st0 = []"
  shows "\<exists>e st. run_pool ac dest max_workers b dry_run all_files st0 = Some (e, st)
     \<and> scheduled (nat (max 1 b)) [] (trace st)"
proof (cases "max_workers \<le> 0")
  case True
  then show ?thesis by (simp add: run_pool_def t0)
next
  case w: False
  show ?thesis
  proof (cases dry_run)
    case True
    with w show ?thesis
      by (simp add: run_pool_def submit_loop_dry f0 t0 yields_each_Nil [OF ac])
  next
    case False
    let ?cap = "nat (max 1 b)"
    have "\<exists>e st'. submit_loop ac dest b False (Suc 0) all_files st0 = Some (e, st')
          \<and> scheduled ?cap [] (trace st')
          \<and> (e = None \<longrightarrow> flight [] (trace st') = map fst (futures st'))"
      by (rule submit_loop_scheduled [OF ac refl]) (simp_all add: f0 t0)
    then obtain e st' where lp: "submit_loop ac dest b False 1 all_files st0 = Some (e, st')"
      and sch: "scheduled ?cap [] (trace st')" by auto
    show ?thesis
    proof (cases e)
      case (Some err)
      with w False lp sch show ?thesis by (simp add: run_pool_def)
    next
      case None
      obtain ev res where dr: "drain (ac (futures st')) = (ev, res)"
        by (cases "drain (ac (futures st'))")
      from drain_events [of "ac (futures st')"] dr obtain ks where ks: "ev = map Result ks"
        by auto
      have "scheduled ?cap [] (trace st' @ ev)"
        using sch by (simp add: scheduled_append ks scheduled_Results)
      with w False lp None dr show ?thesis
        by (cases res) (simp_all add: run_pool_def)
    qed
  qed
qed

subsection \<open>The outcomes of the moves of a run\<close>



subsection \<open>One batch of the submission loop\<close>





subsection \<open>Where a run with a failed move stops\<close>

















subsection \<open>Claims about the collision resolution\<close>

text \<open>
  C2. For every file system and every source file (a path with a name), the collision
  resolution of \<open>move_file\<close> returns \<^verbatim>\<open>dest_dir/name\<close> unchanged when nothing exists at
  that path. Otherwise it returns \<^verbatim>\<open>dest_dir/"{stem} ({i}){suffix}"\<close> for the smallest
  \<open>i \<ge> 1\<close> whose candidate does not exist, where stem and suffix split the name: the
  suffix is empty, or it is the last dot of the name with what follows it. The path that
  \<open>move_file\<close> returns is this one.
\<close>

theorem move_file_collision_resolution:
  assumes "name src \<noteq> []"
  shows "\<exists>p. resolve t src dest_dir = Some p
     \<and> (\<forall>r t'. move_file t src dest_dir = Some (Inr r, t') \<longrightarrow> r = p)
     \<and> (\<not> exists t (joinpath dest_dir (name src)) \<longrightarrow> p = joinpath dest_dir (name src))
     \<and> (exists t (joinpath dest_dir (name src)) \<longrightarrow>
          (\<exists>i\<ge>1. p = joinpath dest_dir (candidate (stem (name src)) (suffix (name src)) i)
             \<and> \<not> exists t p
             \<and> (\<forall>k. 1 \<le> k \<and> k < i \<longrightarrow>
                  exists t (joinpath dest_dir
                    (candidate (stem (name src)) (suffix (name src)) k)))))
     \<and> stem (name src) @ suffix (name src) = name src
     \<and> (suffix (name src) = [] \<or>
          (\<exists>ext. suffix (name src) = CHR ''.'' # ext \<and> ext \<noteq> [] \<and> CHR ''.'' \<notin> set ext))"
proof (cases "exists t (joinpath dest_dir (name src))")
  case False
  then have "resolve t src dest_dir = Some (joinpath dest_dir (name src))"
    by (rule resolve_free)
  with False show ?thesis
    using stem_suffix [of "name src"] suffix_shape [of "name src"]
    by (auto dest: move_file_result)
next
  case True
  from resolve_taken [OF True assms] obtain i where i: "1 \<le> i"
    "resolve t src dest_dir
       = Some (joinpath dest_dir (candidate (stem (name src)) (suffix (name src)) i))"
    "\<not> exists t (joinpath dest_dir (candidate (stem (name src)) (suffix (name src)) i))"
    "\<forall>k. 1 \<le> k \<and> k < i \<longrightarrow>
        exists t (joinpath dest_dir (candidate (stem (name src)) (suffix (name src)) k))"
    by blast
  have "\<forall>r t'. move_file t src dest_dir = Some (Inr r, t') \<longrightarrow>
      r = joinpath dest_dir (candidate (stem (name src)) (suffix (name src)) i)"
    using i(2) by (auto dest: move_file_result)
  with True i show ?thesis
    using stem_suffix [of "name src"] suffix_shape [of "name src"]
    by blast
qed

theorem move_file_collision_resolution_witness:
  "name [''src'', ''sub'', ''a.txt''] \<noteq> [] \<and>
   exists example_tree (joinpath [''out''] (name [''src'', ''sub'', ''a.txt''])) \<and>
   resolve example_tree [''src'', ''sub'', ''a.txt''] [''out''] = Some [''out'', ''a (2).txt'']"
proof -
  have n: "name [''src'', ''sub'', ''a.txt''] \<noteq> []" by code_simp
  have e: "exists example_tree (joinpath [''out''] (name [''src'', ''sub'', ''a.txt'']))"
    by code_simp
  have c1: "joinpath [''out''] (candidate (stem (name [''src'', ''sub'', ''a.txt'']))
      (suffix (name [''src'', ''sub'', ''a.txt''])) 2) = [''out'', ''a (2).txt'']" by code_simp
  have c2: "\<not> exists example_tree [''out'', ''a (2).txt'']" by code_simp
  have c3: "exists example_tree (joinpath [''out''] (candidate (stem (name [''src'', ''sub'', ''a.txt'']))
      (suffix (name [''src'', ''sub'', ''a.txt''])) 1))" by code_simp
  from move_file_collision_resolution [OF n, of example_tree "[''out'']"] e
  obtain p i where p: "resolve example_tree [''src'', ''sub'', ''a.txt''] [''out''] = Some p"
    and i: "1 \<le> i" "p = joinpath [''out''] (candidate (stem (name [''src'', ''sub'', ''a.txt'']))
      (suffix (name [''src'', ''sub'', ''a.txt''])) i)" "\<not> exists example_tree p"
      "\<forall>k. 1 \<le> k \<and> k < i \<longrightarrow> exists example_tree (joinpath [''out'']
         (candidate (stem (name [''src'', ''sub'', ''a.txt''])) (suffix (name [''src'', ''sub'', ''a.txt''])) k))"
    by blast
  have "i = 2"
  proof (rule ccontr)
    assume "i \<noteq> 2"
    then consider "i = 1" | "2 < i" using i(1) by linarith
    then show False
    proof cases
      case 1
      with i(2,3) c3 show False by simp
    next
      case 2
      with i(4) have "exists example_tree (joinpath [''out'']
         (candidate (stem (name [''src'', ''sub'', ''a.txt''])) (suffix (name [''src'', ''sub'', ''a.txt''])) 2))"
        by simp
      with c1 c2 show False by simp
    qed
  qed
  with p i(2) c1 n e show ?thesis by simp
qed

text \<open>
  C8. A directory has finitely many entries, and the probe loop of \<open>move_file\<close>, entered
  with \<open>i = 1\<close>, returns: there is an \<open>i \<ge> 1\<close> whose candidate does not exist, and
  the loop returns that candidate after \<open>i\<close> probes.
\<close>

theorem probe_terminates:
  "finite {n. exists t (dest_dir @ [n])} \<and>
   (\<exists>i\<ge>1. \<not> exists t (joinpath dest_dir (candidate st sf i))
      \<and> probe t dest_dir st sf 1 = Some (joinpath dest_dir (candidate st sf i)))"
  using finite_entries [of t dest_dir] probe_total [of t dest_dir st sf] by blast

theorem probe_terminates_witness:
  "\<exists>i\<ge>1. \<not> exists example_tree (joinpath [''out''] (candidate ''a'' ''.txt'' i))
      \<and> probe example_tree [''out''] ''a'' ''.txt'' 1
          = Some (joinpath [''out''] (candidate ''a'' ''.txt'' i))"
  using probe_terminates [of example_tree "[''out'']" "''a''" "''.txt''"] by blast

text \<open>
  C9. A name that is a dot followed by characters without a dot (such as
  \<^verbatim>\<open>.gitignore\<close>) is all stem and has an empty suffix, so its \<open>i\<close>-th candidate is
  \<^verbatim>\<open>"{name} ({i})"\<close>, and that is what the collision resolution returns when the name
  is taken.
\<close>

theorem dotfile_candidate:
  assumes "name src = CHR ''.'' # rest" and "CHR ''.'' \<notin> set rest"
    and "exists t (joinpath dest_dir (name src))"
  shows "stem (name src) = name src \<and> suffix (name src) = []
     \<and> (\<forall>i. candidate (stem (name src)) (suffix (name src)) i
            = name src @ '' ('' @ str_nat i @ '')'')
     \<and> (\<exists>i\<ge>1. resolve t src dest_dir
            = Some (dest_dir @ [name src @ '' ('' @ str_nat i @ '')'']))"
proof -
  from assms(2) have "rfind CHR ''.'' rest = -1" by (rule rfind_absent)
  then have r: "rfind CHR ''.'' (name src) = 0" by (simp add: assms(1))
  then have st: "stem (name src) = name src" and sf: "suffix (name src) = []"
    by (simp_all add: stem_def suffix_def)
  have cand: "\<And>i. candidate (stem (name src)) (suffix (name src)) i
      = name src @ '' ('' @ str_nat i @ '')''"
    by (simp add: st sf candidate_def)
  from assms(1) have "name src \<noteq> []" by simp
  from resolve_taken [OF assms(3) this] obtain i where "1 \<le> i"
    "resolve t src dest_dir
       = Some (joinpath dest_dir (candidate (stem (name src)) (suffix (name src)) i))"
    by blast
  then have "\<exists>i\<ge>1. resolve t src dest_dir
       = Some (dest_dir @ [name src @ '' ('' @ str_nat i @ '')''])"
    using cand by (auto simp: joinpath_def)
  with st sf cand show ?thesis by blast
qed

theorem dotfile_candidate_witness:
  "name [''src'', ''.gitignore''] = CHR ''.'' # ''gitignore''
   \<and> CHR ''.'' \<notin> set ''gitignore''
   \<and> exists dotfile_tree (joinpath [''out''] (name [''src'', ''.gitignore'']))
   \<and> stem (name [''src'', ''.gitignore'']) = ''.gitignore''
   \<and> suffix (name [''src'', ''.gitignore'']) = []
   \<and> candidate (stem (name [''src'', ''.gitignore''])) (suffix (name [''src'', ''.gitignore''])) 1
        = ''.gitignore (1)''
   \<and> resolve dotfile_tree [''src'', ''.gitignore''] [''out''] = Some [''out'', ''.gitignore (1)'']"
proof -
  have n: "name [''src'', ''.gitignore''] = CHR ''.'' # ''gitignore''" by (simp add: name_def)
  have d: "CHR ''.'' \<notin> set ''gitignore''" by simp
  have e: "exists dotfile_tree (joinpath [''out''] (name [''src'', ''.gitignore'']))"
    by code_simp
  have s1: "str_nat 1 = ''1''" by code_simp
  have r: "resolve dotfile_tree [''src'', ''.gitignore''] [''out''] = Some [''out'', ''.gitignore (1)'']"
    by code_simp
  note th = dotfile_candidate [OF n d e]
  from th have a: "stem (name [''src'', ''.gitignore'']) = name [''src'', ''.gitignore'']"
    by blast
  from th have b: "suffix (name [''src'', ''.gitignore'']) = []"
    by blast
  from th have "candidate (stem (name [''src'', ''.gitignore'']))
      (suffix (name [''src'', ''.gitignore''])) 1
        = name [''src'', ''.gitignore''] @ '' ('' @ str_nat 1 @ '')''"
    by blast
  then have c: "candidate (stem (name [''src'', ''.gitignore'']))
      (suffix (name [''src'', ''.gitignore''])) 1 = ''.gitignore (1)''"
    unfolding n s1 by simp
  from a have a': "stem (name [''src'', ''.gitignore'']) = ''.gitignore''"
    by (simp add: n)
  from n d e r a' b c show ?thesis by simp
qed

text \<open>
  C10. A directory counts as a collision. When the destination directory holds a
  subdirectory with the name of the source file, \<open>move_file\<close> moves the file to a
  candidate \<^verbatim>\<open>"{stem} ({i}){suffix}"\<close> with \<open>i \<ge> 1\<close>, which is another name; the
  file's content is at that path afterwards, the subdirectory is still a directory, and
  the file has not been put inside it.
\<close>

theorem directory_counts_as_collision:
  assumes "name src \<noteq> []" and "lookup t src = Some (File c)"
    and "isdir t (joinpath dest_dir (name src))"
  shows "\<exists>i\<ge>1. \<exists>t'.
      move_file t src dest_dir
        = Some (Inr (dest_dir @ [candidate (stem (name src)) (suffix (name src)) i]), t')
    \<and> candidate (stem (name src)) (suffix (name src)) i \<noteq> name src
    \<and> lookup t' (dest_dir @ [candidate (stem (name src)) (suffix (name src)) i]) = Some (File c)
    \<and> isdir t' (dest_dir @ [name src])
    \<and> (\<not> exists t (dest_dir @ [name src, name src])
          \<longrightarrow> \<not> exists t' (dest_dir @ [name src, name src]))"
proof -
  let ?n = "name src"
  let ?q = "dest_dir @ [?n]"
  from assms(1) have q: "joinpath dest_dir ?n = ?q" by (simp add: joinpath_def)
  with assms(3) have dq: "isdir t ?q" by simp
  then have eq: "exists t ?q" by (auto simp: isdir_def exists_def split: option.splits)
  with q have "exists t (joinpath dest_dir ?n)" by simp
  from resolve_taken [OF this assms(1)] obtain i where i: "1 \<le> i"
    and res: "resolve t src dest_dir
       = Some (joinpath dest_dir (candidate (stem ?n) (suffix ?n) i))"
    and free: "\<not> exists t (joinpath dest_dir (candidate (stem ?n) (suffix ?n) i))"
    by blast
  let ?c = "candidate (stem ?n) (suffix ?n) i"
  let ?p = "dest_dir @ [?c]"
  have p: "joinpath dest_dir ?c = ?p" by (rule joinpath_candidate)
  from free p have nf: "\<not> exists t ?p" by simp
  with eq have ne: "?c \<noteq> ?n" by auto
  from eq have dd: "isdir t dest_dir" by (rule isdir_parent)
  have "isdir (remove t src) dest_dir"
    using dd file_not_prefix_of_dir [OF assms(2) dd] by (rule isdir_remove)
  from put_snoc_ok [OF this] obtain t' where t': "put (remove t src) ?p (File c) = Some t'"
    by blast
  from nf have "\<not> isdir t ?p" by (rule not_isdir_absent)
  with t' assms(2) have "shutil_move t src ?p = Inr t'"
    by (simp add: shutil_move_def os_rename_def)
  with res p have mv: "move_file t src dest_dir = Some (Inr ?p, t')"
    by (simp add: move_file_def)
  from t' have at_p: "lookup t' ?p = Some (File c)" by (rule lookup_put_same)
  have "isdir (remove t src) ?q"
    using dq file_not_prefix_of_dir [OF assms(2) dq] by (rule isdir_remove)
  moreover from ne have "?n \<noteq> ?c" by simp
  from lookup_put_sibling [OF t' this, of "[]"]
  have "lookup t' ?q = lookup (remove t src) ?q" .
  ultimately have still: "isdir t' ?q" by (simp add: isdir_def)
  have inside: "\<not> exists t' (dest_dir @ [?n, ?n])" if "\<not> exists t (dest_dir @ [?n, ?n])"
  proof -
    from that have "lookup (remove t src) (dest_dir @ [?n, ?n]) = None"
      by (simp add: exists_def lookup_remove_None)
    moreover from \<open>?n \<noteq> ?c\<close> lookup_put_sibling [OF t', of ?n "[?n]"]
    have "lookup t' (dest_dir @ [?n, ?n]) = lookup (remove t src) (dest_dir @ [?n, ?n])"
      by simp
    ultimately show ?thesis by (simp add: exists_def)
  qed
  from i mv ne at_p still inside show ?thesis by blast
qed

theorem directory_counts_as_collision_witness:
  "name [''src'', ''data''] \<noteq> []
   \<and> lookup collision_tree [''src'', ''data''] = Some (File ''D'')
   \<and> isdir collision_tree (joinpath [''out''] (name [''src'', ''data'']))
   \<and> (\<exists>i\<ge>1. \<exists>t'.
        move_file collision_tree [''src'', ''data''] [''out'']
          = Some (Inr ([''out''] @ [candidate (stem (name [''src'', ''data'']))
                                      (suffix (name [''src'', ''data''])) i]), t')
        \<and> isdir t' ([''out''] @ [name [''src'', ''data'']]))
   \<and> move_file collision_tree [''src'', ''data''] [''out'']
        = Some (Inr [''out'', ''data (1)''],
            Dir [(''src'', Dir []),
                 (''out'', Dir [(''data'', Dir [(''x'', File ''X'')]),
                               (''data (1)'', File ''D'')])])"
proof -
  have h1: "name [''src'', ''data''] \<noteq> []" by code_simp
  have h2: "lookup collision_tree [''src'', ''data''] = Some (File ''D'')" by code_simp
  have h3: "isdir collision_tree (joinpath [''out''] (name [''src'', ''data'']))" by code_simp
  have r: "move_file collision_tree [''src'', ''data''] [''out'']
        = Some (Inr [''out'', ''data (1)''],
            Dir [(''src'', Dir []),
                 (''out'', Dir [(''data'', Dir [(''x'', File ''X'')]),
                               (''data (1)'', File ''D'')])])" by code_simp
  from directory_counts_as_collision [OF h1 h2 h3] h1 h2 h3 r show ?thesis by blast
qed

subsection \<open>Claims about a run\<close>

text \<open>
  C7. When the source path does not exist, \<open>main\<close> prints one line that names the source
  path and returns without an error; the file system is the one it started with (no
  destination directory is created), no file is gathered and no move is submitted.
\<close>

theorem main_source_not_found:
  assumes "\<not> exists t source"
  shows "main as_completed t source dest max_workers batch_size dry_run =
     Some (None, \<lparr>fsys = t, futures = [],
                   out = [''Source path does not exist: '' @ str_path source],
                   trace = []\<rparr>)"
  using assms by (simp add: main_def)

theorem main_source_not_found_witness:
  "\<not> exists scenario_tree [''nosrc''] \<and>
   main id scenario_tree [''nosrc''] [''out''] 2 2000 False =
     Some (None, \<lparr>fsys = scenario_tree, futures = [],
                   out = [''Source path does not exist: nosrc''], trace = []\<rparr>)"
proof -
  have h: "\<not> exists scenario_tree [''nosrc'']" by code_simp
  from main_source_not_found [OF h, of id "[''out'']" 2 2000 False] h
  show ?thesis by simp
qed

text \<open>
  C1, as amended. A dry run submits no move and moves, removes or changes no file: the
  files of the file system, with their contents, are the same before and after, and
  nothing that existed is gone. The one change a dry run can make is the creation of the
  destination directory (with its missing parents), which \<open>main\<close> does before it looks
  at the flag; when the destination is a directory already, the file system is identical
  before and after.
\<close>

theorem dry_run_effect:
  assumes "yields_each as_completed"
  shows "\<exists>e st. main as_completed t source dest max_workers batch_size True = Some (e, st)
     \<and> trace st = [] \<and> futures st = []
     \<and> (fsys st = t \<or> mkdir t dest = Inr (fsys st))
     \<and> (isdir t dest \<longrightarrow> fsys st = t)
     \<and> (\<forall>p c. (lookup (fsys st) p = Some (File c)) = (lookup t p = Some (File c)))
     \<and> (\<forall>p. exists t p \<longrightarrow> exists (fsys st) p)"
proof (cases "exists t source")
  case False
  then show ?thesis by (simp add: main_def)
next
  case True
  show ?thesis
  proof (cases "mkdir t dest")
    case (Inl e)
    then have "\<not> isdir t dest" using mkdir_isdir [of t dest] by auto
    with True Inl show ?thesis by (simp add: main_def)
  next
    case (Inr t1)
    have same: "isdir t dest \<longrightarrow> t1 = t" using Inr mkdir_isdir [of t dest] by auto
    have files: "\<forall>p c. (lookup t1 p = Some (File c)) = (lookup t p = Some (File c))"
      using mkdir_files [OF Inr] by blast
    have ex: "\<forall>p. exists t p \<longrightarrow> exists t1 p"
      using mkdir_exists [OF Inr] by blast
    show ?thesis
    proof (cases "max_workers \<le> 0")
      case w: True
      with True Inr same files ex show ?thesis
        by (simp add: main_def run_pool_def Let_def)
    next
      case w: False
      with True Inr same files ex show ?thesis
        by (simp add: main_def run_pool_def Let_def submit_loop_dry yields_each_Nil [OF assms])
    qed
  qed
qed

theorem dry_run_effect_witness:
  "yields_each id \<and>
   (\<exists>e st. main id example_tree [''src''] [''out''] 2 2000 True = Some (e, st)
     \<and> trace st = [] \<and> futures st = []
     \<and> (isdir example_tree [''out''] \<longrightarrow> fsys st = example_tree))
   \<and> isdir example_tree [''out'']"
proof -
  have "isdir example_tree [''out'']" by code_simp
  with dry_run_effect [OF yields_each_id, of example_tree "[''src'']" "[''out'']" 2 2000]
    yields_each_id
  show ?thesis by blast
qed

text \<open>
  C1 as stated fails: in the scenario of the specification, with no destination yet, a
  dry run leaves a new empty directory \<^verbatim>\<open>out\<close>.
\<close>

theorem dry_run_creates_destination:
  "\<not> exists scenario_tree [''out'']
   \<and> main id scenario_tree [''src''] [''out''] 2 2000 True
     = Some (None,
         \<lparr>fsys = Dir [(''src'', Dir [(''a.txt'', File ''A''), (''b.txt'', File ''C''),
                                     (''sub'', Dir [(''a.txt'', File ''B'')])]),
                      (''out'', Dir [])],
          futures = [],
          out = [''Found 3 files to move.'', ''Would move: src/a.txt -> out'',
                 ''Would move: src/b.txt -> out'', ''Would move: src/sub/a.txt -> out'',
                 ''Done moving files.''],
          trace = []\<rparr>)
   \<and> Dir [(''src'', Dir [(''a.txt'', File ''A''), (''b.txt'', File ''C''),
                           (''sub'', Dir [(''a.txt'', File ''B'')])]),
            (''out'', Dir [])] \<noteq> scenario_tree"
  by code_simp

text \<open>
  C4, as amended. For every list of files and every batch size, with
  \<open>cap = max 1 batch_size\<close>: a run returns, the scheduler never has more than \<open>cap\<close>
  files in flight, and batches of \<open>cap\<close> files are processed in sequence: when a file
  is submitted, every file of an earlier batch has reached its end. For a batch size of
  at least 1 this is the claim as stated.
\<close>

theorem batches_in_sequence:
  assumes "yields_each as_completed"
  shows "\<exists>e st. main as_completed t source dest max_workers batch_size dry_run = Some (e, st)
     \<and> scheduled (nat (max 1 batch_size)) [] (trace st)
     \<and> (\<forall>n. length (flight [] (take n (trace st))) \<le> nat (max 1 batch_size))"
proof -
  have "\<exists>e st. main as_completed t source dest max_workers batch_size dry_run = Some (e, st)
     \<and> scheduled (nat (max 1 batch_size)) [] (trace st)"
  proof (cases "exists t source")
    case False
    then show ?thesis by (simp add: main_def)
  next
    case True
    show ?thesis
    proof (cases "mkdir t dest")
      case (Inl e)
      with True show ?thesis by (simp add: main_def)
    next
      case (Inr t1)
      with True show ?thesis
        using run_pool_scheduled [OF assms, of _ dest max_workers batch_size dry_run]
        by (simp add: main_def Let_def)
    qed
  qed
  then obtain e st where
    m: "main as_completed t source dest max_workers batch_size dry_run = Some (e, st)"
    and s: "scheduled (nat (max 1 batch_size)) [] (trace st)" by blast
  from s have "\<forall>n. length (flight [] (take n (trace st))) \<le> nat (max 1 batch_size)"
    by (simp add: scheduled_flight_bound)
  with m s show ?thesis by blast
qed

theorem batches_in_sequence_witness:
  "yields_each id \<and>
   main id scenario_tree [''src''] [''out''] 2 2 False
     = Some (None,
         \<lparr>fsys = Dir [(''src'', Dir [(''sub'', Dir [])]),
                      (''out'', Dir [(''a.txt'', File ''A''), (''b.txt'', File ''C''),
                                    (''a (1).txt'', File ''B'')])],
          futures = [(3, Inr [''out'', ''a (1).txt''])],
          out = [''Found 3 files to move.'', ''Done moving files.''],
          trace = [Submit 1, Submit 2, Result 1, Result 2, Submit 3, Result 3]\<rparr>)
   \<and> scheduled (nat (max 1 2)) [] [Submit 1, Submit 2, Result 1, Result 2, Submit 3, Result 3]"
proof -
  have r: "main id scenario_tree [''src''] [''out''] 2 2 False
     = Some (None,
         \<lparr>fsys = Dir [(''src'', Dir [(''sub'', Dir [])]),
                      (''out'', Dir [(''a.txt'', File ''A''), (''b.txt'', File ''C''),
                                    (''a (1).txt'', File ''B'')])],
          futures = [(3, Inr [''out'', ''a (1).txt''])],
          out = [''Found 3 files to move.'', ''Done moving files.''],
          trace = [Submit 1, Submit 2, Result 1, Result 2, Submit 3, Result 3]\<rparr>)"
    by code_simp
  from batches_in_sequence [OF yields_each_id, of scenario_tree "[''src'']" "[''out'']" 2 2 False]
  have "scheduled (nat (max 1 2)) [] [Submit 1, Submit 2, Result 1, Result 2, Submit 3, Result 3]"
    unfolding r by simp
  with r yields_each_id show ?thesis by blast
qed

text \<open>
  C4 as stated fails for a batch size that is not positive, which the command line
  accepts: with \<^verbatim>\<open>--batch 0\<close> every file is a batch of its own, and one file is in
  flight.
\<close>

theorem batch_size_zero_in_flight:
  "main id scenario_tree [''src''] [''out''] 2 0 False
     = Some (None,
         \<lparr>fsys = Dir [(''src'', Dir [(''sub'', Dir [])]),
                      (''out'', Dir [(''a.txt'', File ''A''), (''b.txt'', File ''C''),
                                    (''a (1).txt'', File ''B'')])],
          futures = [],
          out = [''Found 3 files to move.'', ''Done moving files.''],
          trace = [Submit 1, Result 1, Submit 2, Result 2, Submit 3, Result 3]\<rparr>)
   \<and> flight [] (take 1 [Submit 1, Result 1, Submit 2, Result 2, Submit 3, Result 3]) = [1]
   \<and> \<not> length (flight [] (take 1 [Submit 1, Result 1, Submit 2, Result 2, Submit 3, Result 3]))
        \<le> nat 0
   \<and> \<not> scheduled (nat 0) [] [Submit 1, Result 1, Submit 2, Result 2, Submit 3, Result 3]"
  by code_simp







text \<open>
  C5. Two files named \<^verbatim>\<open>a.txt\<close> in different directories of the source, and an empty
  destination. With one worker the run leaves \<^verbatim>\<open>a.txt\<close> and \<^verbatim>\<open>a (1).txt\<close> in the
  destination, each with the content of one source file, and no file in the source.
\<close>

lemma same_name_one_worker:
  "main id same_name_tree [''src''] [''out''] 1 2000 False
     = Some (None,
         \<lparr>fsys = Dir [(''src'', Dir [(''sub'', Dir [])]),
                      (''out'', Dir [(''a.txt'', File ''A''), (''a (1).txt'', File ''B'')])],
          futures = [(1, Inr [''out'', ''a.txt'']), (2, Inr [''out'', ''a (1).txt''])],
          out = [''Found 2 files to move.'', ''Done moving files.''],
          trace = [Submit 1, Submit 2, Result 1, Result 2]\<rparr>)"
  by code_simp

text \<open>
  C5 fails with two workers (the default of \<^verbatim>\<open>--threads\<close>): when both calls of
  \<open>move_file\<close> test \<^verbatim>\<open>dest.exists()\<close> before either has moved its file, both choose
  \<^verbatim>\<open>out/a.txt\<close>, neither raises, and the second move replaces the file of the first. The
  destination holds one file, not two, and the content \<^verbatim>\<open>A\<close> is lost.
\<close>

theorem same_name_race_loses_file:
  "gather_files same_name_tree [''src''] = [[''src'', ''a.txt''], [''src'', ''sub'', ''a.txt'']]
   \<and> two_workers_race same_name_tree [''src'', ''a.txt''] [''src'', ''sub'', ''a.txt''] [''out'']
     = Some (Inr [''out'', ''a.txt''], Inr [''out'', ''a.txt''],
             Dir [(''src'', Dir [(''sub'', Dir [])]),
                  (''out'', Dir [(''a.txt'', File ''B'')])])"
  by code_simp

end
